theory Spec2Isabelle
  imports Complex_Main "HOL-Library.Log_Nat"
begin

section \<open>JavaScript values and the default cache key\<close>

text \<open>
  Every memoizer of \<^verbatim>\<open>Memoization.js\<close> derives its cache key with
  \<^verbatim>\<open>JSON.stringify(args)\<close>, where \<^verbatim>\<open>args\<close> is the array of the call's arguments.
  The arguments are modelled by the JSON-relevant JavaScript values: \<^verbatim>\<open>undefined\<close>,
  \<^verbatim>\<open>null\<close>, booleans, integral Numbers in the safe-integer range, strings of code units
  below 256, and arrays of such values.
\<close>

datatype jsval =
    JUndefined
  | JNull
  | JBool bool
  | JNum int
  | JStr string
  | JArr "jsval list"

subsection \<open>Number to decimal string\<close>

definition digit_char :: "int \<Rightarrow> char" where
  "digit_char d = char_of (48 + d)"

function decimal_digits :: "int \<Rightarrow> string" where
  "decimal_digits n =
     (if n < 10 then [digit_char n] else decimal_digits (n div 10) @ [digit_char (n mod 10)])"
  by pat_completeness auto
termination
  by (relation "measure nat") auto

declare decimal_digits.simps [simp del]

text \<open>\<^verbatim>\<open>Number::toString\<close> of an integral Number below \<open>10\<^sup>2\<^sup>1\<close> in magnitude.\<close>

definition show_int :: "int \<Rightarrow> string" where
  "show_int i = (if i < 0 then CHR ''-'' # decimal_digits (- i) else decimal_digits i)"

subsection \<open>QuoteJSONString\<close>

definition hex_char :: "nat \<Rightarrow> char" where
  "hex_char d = (if d < 10 then char_of (48 + d) else char_of (87 + d))"

definition quote_char :: "char \<Rightarrow> string" where
  "quote_char c =
     (if c = char_of (8::nat) then [CHR 0x5C, CHR ''b'']
      else if c = char_of (9::nat) then [CHR 0x5C, CHR ''t'']
      else if c = char_of (10::nat) then [CHR 0x5C, CHR ''n'']
      else if c = char_of (12::nat) then [CHR 0x5C, CHR ''f'']
      else if c = char_of (13::nat) then [CHR 0x5C, CHR ''r'']
      else if c = CHR 0x22 then [CHR 0x5C, CHR 0x22]
      else if c = CHR 0x5C then [CHR 0x5C, CHR 0x5C]
      else if of_char c < (32::nat) then
        [CHR 0x5C, CHR ''u'', CHR ''0'', CHR ''0'',
         hex_char (of_char c div 16), hex_char (of_char c mod 16)]
      else [c])"

definition quote_json_string :: "string \<Rightarrow> string" where
  "quote_json_string s = [CHR 0x22] @ concat (map quote_char s) @ [CHR 0x22]"

subsection \<open>JSON.stringify\<close>

fun join_comma :: "string list \<Rightarrow> string" where
  "join_comma [] = []"
| "join_comma [s] = s"
| "join_comma (s # t # ss) = s @ '','' @ join_comma (t # ss)"

text \<open>
  \<^verbatim>\<open>SerializeJSONProperty\<close> yields \<^verbatim>\<open>undefined\<close> (here \<open>None\<close>) for the value
  \<^verbatim>\<open>undefined\<close>; \<^verbatim>\<open>SerializeJSONArray\<close> writes \<^verbatim>\<open>null\<close> for such an element.
\<close>

fun serialize_property :: "jsval \<Rightarrow> string option"
  and serialize_element :: "jsval \<Rightarrow> string" where
  "serialize_property JUndefined = None"
| "serialize_property JNull = Some ''null''"
| "serialize_property (JBool b) = Some (if b then ''true'' else ''false'')"
| "serialize_property (JNum n) = Some (show_int n)"
| "serialize_property (JStr s) = Some (quote_json_string s)"
| "serialize_property (JArr vs) = Some (''['' @ join_comma (map serialize_element vs) @ '']'')"
| "serialize_element v = (case serialize_property v of None \<Rightarrow> ''null'' | Some s \<Rightarrow> s)"

text \<open>\<^verbatim>\<open>JSON.stringify(args)\<close> for the rest-parameter array \<^verbatim>\<open>args\<close>.\<close>

definition JSON_stringify :: "jsval list \<Rightarrow> string" where
  "JSON_stringify args = ''['' @ join_comma (map serialize_element args) @ '']''"


section \<open>Effects of a call\<close>

text \<open>
  The wrapped computation \<^verbatim>\<open>fn\<close> is a deterministic function of the argument list that
  either throws (\<open>Inl\<close>) or returns (\<open>Inr\<close>) and does not call the memoized function
  itself (that case is modelled for \<^verbatim>\<open>memoizeWithMaxSize\<close> in a subsection of its own). Each memoized call returns its outcome, the
  cache after the call and the events of the call in order: the \<^verbatim>\<open>console.log\<close> lines it
  prints and one \<open>Invoke\<close> for every call of \<^verbatim>\<open>fn\<close>.
\<close>

type_synonym ('e, 'v) computation = "jsval list \<Rightarrow> 'e + 'v"

datatype event =
    LogCacheHit string
  | LogComputing "jsval list"
  | LogEvicted "string option"
  | LogCacheCleared
  | Invoke "jsval list"

definition invocations :: "event list \<Rightarrow> jsval list list" where
  "invocations evs = concat (map (\<lambda>e. case e of Invoke a \<Rightarrow> [a] | _ \<Rightarrow> []) evs)"

definition evictions :: "event list \<Rightarrow> string option list" where
  "evictions evs = concat (map (\<lambda>e. case e of LogEvicted k \<Rightarrow> [k] | _ \<Rightarrow> []) evs)"

definition hit_count :: "event list \<Rightarrow> nat" where
  "hit_count evs = length (filter (\<lambda>e. case e of LogCacheHit _ \<Rightarrow> True | _ \<Rightarrow> False) evs)"

definition computing_count :: "event list \<Rightarrow> nat" where
  "computing_count evs = length (filter (\<lambda>e. case e of LogComputing _ \<Rightarrow> True | _ \<Rightarrow> False) evs)"

section \<open>The JavaScript \<^verbatim>\<open>Map\<close>\<close>

text \<open>
  A \<^verbatim>\<open>Map\<close> iterates its keys in insertion order; \<^verbatim>\<open>set\<close> on a present key keeps the
  key's position, \<^verbatim>\<open>set\<close> on an absent key appends. It is an association list.
\<close>

type_synonym ('k, 'v) js_Map = "('k \<times> 'v) list"

definition Map_has :: "'k \<Rightarrow> ('k, 'v) js_Map \<Rightarrow> bool" where
  "Map_has k m = (k \<in> set (map fst m))"

definition Map_get :: "'k \<Rightarrow> ('k, 'v) js_Map \<Rightarrow> 'v option" where
  "Map_get k m = map_of m k"

fun Map_set :: "'k \<Rightarrow> 'v \<Rightarrow> ('k, 'v) js_Map \<Rightarrow> ('k, 'v) js_Map" where
  "Map_set k v [] = [(k, v)]"
| "Map_set k v (p # m) = (if fst p = k then (k, v) # m else p # Map_set k v m)"

definition Map_delete :: "'k \<Rightarrow> ('k, 'v) js_Map \<Rightarrow> ('k, 'v) js_Map" where
  "Map_delete k m = filter (\<lambda>p. fst p \<noteq> k) m"

definition Map_size :: "('k, 'v) js_Map \<Rightarrow> nat" where
  "Map_size m = length m"

text \<open>\<^verbatim>\<open>cache.keys().next().value\<close>: the first key, \<^verbatim>\<open>undefined\<close> on an empty Map.\<close>

definition Map_first_key :: "('k, 'v) js_Map \<Rightarrow> 'k option" where
  "Map_first_key m = (case m of [] \<Rightarrow> None | p # _ \<Rightarrow> Some (fst p))"

definition Map_keys :: "('k, 'v) js_Map \<Rightarrow> 'k list" where
  "Map_keys m = map fst m"

section \<open>The memoizers of \<^verbatim>\<open>Memoization.js\<close>\<close>

subsection \<open>Example 1: \<^verbatim>\<open>memoize\<close>\<close>

text \<open>
  The cache is a plain object, a map from keys to stored values. \<^verbatim>\<open>key in cache\<close> also
  sees the properties inherited from \<^verbatim>\<open>Object.prototype\<close>; their names are identifiers,
  and every key begins with a bracket (lemma \<open>JSON_stringify_bracket\<close>), so only stored keys
  are found.
\<close>

definition memoize ::
  "('e, 'v) computation \<Rightarrow> jsval list \<Rightarrow> (string \<rightharpoonup> 'v)
     \<Rightarrow> ('e + 'v) \<times> (string \<rightharpoonup> 'v) \<times> event list" where
  "memoize fn args cache =
     (let key = JSON_stringify args in
      case cache key of
        Some r \<Rightarrow> (Inr r, cache, [LogCacheHit key])
      | None \<Rightarrow>
          (case fn args of
             Inl x \<Rightarrow> (Inl x, cache, [LogComputing args, Invoke args])
           | Inr result \<Rightarrow>
               (Inr result, cache(key \<mapsto> result), [LogComputing args, Invoke args])))"

subsection \<open>Example 5: \<^verbatim>\<open>memoizeWithTTL\<close>\<close>

text \<open>
  \<^verbatim>\<open>Date.now()\<close> is read once in the freshness test (\<open>now\<close>) and once more when the
  result is stored (\<open>now'\<close>), after \<^verbatim>\<open>fn\<close> has returned.
\<close>

record 'v ttl_entry =
  cached_value :: 'v
  timestamp :: int

definition memoizeWithTTL ::
  "('e, 'v) computation \<Rightarrow> int \<Rightarrow> jsval list \<Rightarrow> int \<Rightarrow> int \<Rightarrow> (string, 'v ttl_entry) js_Map
     \<Rightarrow> ('e + 'v) \<times> (string, 'v ttl_entry) js_Map \<times> event list" where
  "memoizeWithTTL fn ttlMs args now now' cache =
     (let key = JSON_stringify args;
          cached = Map_get key cache;
          recompute =
            (case fn args of
               Inl x \<Rightarrow> (Inl x, cache, [LogComputing args, Invoke args])
             | Inr result \<Rightarrow>
                 (Inr result,
                  Map_set key \<lparr>cached_value = result, timestamp = now'\<rparr> cache,
                  [LogComputing args, Invoke args]))
      in
      case cached of
        None \<Rightarrow> recompute
      | Some c \<Rightarrow>
          if now - timestamp c < ttlMs then (Inr (cached_value c), cache, [LogCacheHit key])
          else recompute)"

subsection \<open>Example 6: \<^verbatim>\<open>memoizeWithMaxSize\<close>\<close>

text \<open>
  On a hit the entry is deleted, \<^verbatim>\<open>fn\<close> is called again and its result is stored at the
  end of the Map; \<^verbatim>\<open>cache.get(key)\<close> then reads that result back. When \<^verbatim>\<open>fn\<close> throws
  there, the deletion has already happened.
\<close>

definition memoizeWithMaxSize ::
  "('e, 'v) computation \<Rightarrow> int \<Rightarrow> jsval list \<Rightarrow> (string, 'v) js_Map
     \<Rightarrow> ('e + 'v) \<times> (string, 'v) js_Map \<times> event list" where
  "memoizeWithMaxSize fn maxSize args cache =
     (let key = JSON_stringify args in
      if Map_has key cache then
        (let cache1 = Map_delete key cache in
         case fn args of
           Inl x \<Rightarrow> (Inl x, cache1, [LogCacheHit key, Invoke args])
         | Inr r \<Rightarrow> (Inr r, Map_set key r cache1, [LogCacheHit key, Invoke args]))
      else
        (case fn args of
           Inl x \<Rightarrow> (Inl x, cache, [LogComputing args, Invoke args])
         | Inr result \<Rightarrow>
             (let cache1 = Map_set key result cache in
              if int (Map_size cache1) > maxSize then
                (let firstKey = Map_first_key cache1 in
                 (Inr result,
                  (case firstKey of None \<Rightarrow> cache1 | Some k \<Rightarrow> Map_delete k cache1),
                  [LogComputing args, Invoke args, LogEvicted firstKey]))
              else (Inr result, cache1, [LogComputing args, Invoke args]))))"

text \<open>A sequence of calls of one memoized function, from a given cache.\<close>

fun run_maxsize ::
  "('e, 'v) computation \<Rightarrow> int \<Rightarrow> jsval list list \<Rightarrow> (string, 'v) js_Map
     \<Rightarrow> ('e + 'v) list \<times> (string, 'v) js_Map \<times> event list" where
  "run_maxsize fn maxSize [] cache = ([], cache, [])"
| "run_maxsize fn maxSize (args # rest) cache =
     (case memoizeWithMaxSize fn maxSize args cache of
        (r, cache1, evs) \<Rightarrow>
          (case run_maxsize fn maxSize rest cache1 of
             (rs, cache2, evs') \<Rightarrow> (r # rs, cache2, evs @ evs')))"

fun run_memoize ::
  "('e, 'v) computation \<Rightarrow> jsval list list \<Rightarrow> (string \<rightharpoonup> 'v)
     \<Rightarrow> ('e + 'v) list \<times> (string \<rightharpoonup> 'v) \<times> event list" where
  "run_memoize fn [] cache = ([], cache, [])"
| "run_memoize fn (args # rest) cache =
     (case memoize fn args cache of
        (r, cache1, evs) \<Rightarrow>
          (case run_memoize fn rest cache1 of
             (rs, cache2, evs') \<Rightarrow> (r # rs, cache2, evs @ evs')))"


subsection \<open>Example 6 with a wrapped function that calls the memoized function\<close>

text \<open>
  \<^verbatim>\<open>fn(...args)\<close> runs between \<^verbatim>\<open>cache.delete(key)\<close> and \<^verbatim>\<open>cache.set(key, ...)\<close> on a
  hit, and before \<^verbatim>\<open>cache.set(key, result)\<close> on a miss. A wrapped function such as
  \<^verbatim>\<open>n => n <= 1 ? n : fib(n - 1) + fib(n - 2)\<close>, where \<^verbatim>\<open>fib\<close> is the memoized function,
  calls the memoized function while it runs and so changes the same Map. Here the wrapped
  computation receives the memoized function and the Map, and returns the Map it leaves and
  the events of the calls it made. \<open>depth\<close> bounds the nesting of calls of the memoized
  function; \<open>None\<close> is a nesting deeper than that. The definition above is the case of a
  wrapped function that never calls the memoized function (lemma
  \<open>memoizeWithMaxSize_not_reentrant\<close>).
\<close>

type_synonym ('e, 'v) memoized =
  "jsval list \<Rightarrow> (string, 'v) js_Map \<Rightarrow> (('e + 'v) \<times> (string, 'v) js_Map \<times> event list) option"

type_synonym ('e, 'v) reentrant_computation = "('e, 'v) memoized \<Rightarrow> ('e, 'v) memoized"

fun memoizeWithMaxSize_reentrant ::
  "nat \<Rightarrow> ('e, 'v) reentrant_computation \<Rightarrow> int \<Rightarrow> ('e, 'v) memoized" where
  "memoizeWithMaxSize_reentrant 0 fn maxSize args cache = None"
| "memoizeWithMaxSize_reentrant (Suc depth) fn maxSize args cache =
     (let key = JSON_stringify args;
          memoized = memoizeWithMaxSize_reentrant depth fn maxSize
      in
      if Map_has key cache then
        (case fn memoized args (Map_delete key cache) of
           None \<Rightarrow> None
         | Some (Inl x, cache1, evs) \<Rightarrow>
             Some (Inl x, cache1, [LogCacheHit key, Invoke args] @ evs)
         | Some (Inr r, cache1, evs) \<Rightarrow>
             Some (Inr r, Map_set key r cache1, [LogCacheHit key, Invoke args] @ evs))
      else
        (case fn memoized args cache of
           None \<Rightarrow> None
         | Some (Inl x, cache1, evs) \<Rightarrow>
             Some (Inl x, cache1, [LogComputing args, Invoke args] @ evs)
         | Some (Inr result, cache1, evs) \<Rightarrow>
             (let cache2 = Map_set key result cache1 in
              if int (Map_size cache2) > maxSize then
                (let firstKey = Map_first_key cache2 in
                 Some (Inr result,
                       (case firstKey of None \<Rightarrow> cache2 | Some k \<Rightarrow> Map_delete k cache2),
                       [LogComputing args, Invoke args] @ evs @ [LogEvicted firstKey]))
              else Some (Inr result, cache2, [LogComputing args, Invoke args] @ evs))))"

text \<open>A wrapped function that does not call the memoized function.\<close>

definition not_reentrant :: "('e, 'v) computation \<Rightarrow> ('e, 'v) reentrant_computation" where
  "not_reentrant f memoized args cache = Some (f args, cache, [])"


subsection \<open>The \<^verbatim>\<open>Map\<close>-based \<^verbatim>\<open>memoize\<close> of the collections examples\<close>

text \<open>
  This \<^verbatim>\<open>memoize\<close> takes one argument and uses it as the key of a \<^verbatim>\<open>Map\<close>, which
  compares primitive keys by value; \<open>'a\<close> is a type of primitive values. It prints
  nothing; the third component lists the arguments \<^verbatim>\<open>fn\<close> was called with.
\<close>

definition memoize_Map ::
  "('a \<Rightarrow> 'e + 'v) \<Rightarrow> 'a \<Rightarrow> ('a, 'v) js_Map \<Rightarrow> ('e + 'v) \<times> ('a, 'v) js_Map \<times> 'a list" where
  "memoize_Map fn arg cache =
     (case Map_get arg cache of
        Some r \<Rightarrow> (Inr r, cache, [])
      | None \<Rightarrow>
          (case fn arg of
             Inl x \<Rightarrow> (Inl x, cache, [arg])
           | Inr result \<Rightarrow> (Inr result, Map_set arg result cache, [arg])))"

subsection \<open>Example 7: the class \<^verbatim>\<open>MemoizedFunction\<close>\<close>

record ('e, 'v) MemoizedFunction =
  fn :: "('e, 'v) computation"
  cache :: "(string, 'v) js_Map"
  hits :: nat
  misses :: nat

definition new_MemoizedFunction :: "('e, 'v) computation \<Rightarrow> ('e, 'v) MemoizedFunction" where
  "new_MemoizedFunction f = \<lparr>fn = f, cache = [], hits = 0, misses = 0\<rparr>"

text \<open>
  \<^verbatim>\<open>this.cache.has(key)\<close> holds exactly when \<^verbatim>\<open>this.cache.get(key)\<close> finds an entry.
  \<^verbatim>\<open>this.misses++\<close> comes before the call of \<^verbatim>\<open>this.fn\<close>.
\<close>

definition call ::
  "('e, 'v) MemoizedFunction \<Rightarrow> jsval list
     \<Rightarrow> ('e + 'v) \<times> ('e, 'v) MemoizedFunction \<times> event list" where
  "call this args =
     (let key = JSON_stringify args in
      case Map_get key (cache this) of
        Some r \<Rightarrow> (Inr r, this\<lparr>hits := hits this + 1\<rparr>, [LogCacheHit key])
      | None \<Rightarrow>
          (let this1 = this\<lparr>misses := misses this + 1\<rparr> in
           case fn this1 args of
             Inl x \<Rightarrow> (Inl x, this1, [LogComputing args, Invoke args])
           | Inr result \<Rightarrow>
               (Inr result, this1\<lparr>cache := Map_set key result (cache this1)\<rparr>,
                [LogComputing args, Invoke args])))"

definition clear :: "('e, 'v) MemoizedFunction \<Rightarrow> ('e, 'v) MemoizedFunction \<times> event list" where
  "clear this = (this\<lparr>cache := []\<rparr>, [LogCacheCleared])"

subsection \<open>Number arithmetic and \<^verbatim>\<open>toFixed\<close> in \<^verbatim>\<open>stats\<close>\<close>

text \<open>
  A Number is a binary64 value. \<open>to_double\<close> rounds an exact result to the nearest
  binary64 value, ties to even, for results that are zero or of normal magnitude (the
  nonzero quotients and products of \<^verbatim>\<open>stats\<close> lie between \<open>2\<^sup>-\<^sup>5\<^sup>3\<close> and \<open>100\<close>).
  \<open>floor_log2 q\<close> is the exponent \<open>e\<close> with \<open>2\<^sup>e \<le> q < 2\<^sup>e\<^sup>+\<^sup>1\<close> of a positive \<open>q\<close>.
\<close>

definition pow2 :: "int \<Rightarrow> rat" where
  "pow2 e = (if 0 \<le> e then 2 ^ nat e else 1 / 2 ^ nat (- e))"

definition floor_log2 :: "rat \<Rightarrow> int" where
  "floor_log2 q =
     (case quotient_of q of (a, b) \<Rightarrow>
        (let d = bitlen a - bitlen b
         in if pow2 d \<le> q then d else d - 1))"

definition round_ties_even :: "rat \<Rightarrow> int" where
  "round_ties_even q =
     (let f = \<lfloor>q\<rfloor>; r = q - of_int f
      in if r < 1 / 2 then f else if 1 / 2 < r then f + 1 else if even f then f else f + 1)"

definition to_double :: "rat \<Rightarrow> rat" where
  "to_double q =
     (if q = 0 then 0
      else (let u = pow2 (floor_log2 \<bar>q\<bar> - 52)
            in sgn q * of_int (round_ties_even (\<bar>q\<bar> / u)) * u))"

text \<open>
  \<^verbatim>\<open>Number.prototype.toFixed(f)\<close> for \<open>\<bar>x\<bar> < 10\<^sup>2\<^sup>1\<close>: a minus sign for a negative \<open>x\<close>,
  then, for the integer \<open>n\<close> nearest to \<open>\<bar>x\<bar> * 10\<^sup>f\<close> (the larger one on a tie), the
  decimal digits of \<open>n\<close> padded with zeros to \<open>f + 1\<close> digits, with a point before the last
  \<open>f\<close> digits.
\<close>

definition toFixed :: "nat \<Rightarrow> rat \<Rightarrow> string" where
  "toFixed f x =
     (let s = (if x < 0 then ''-'' else []);
          n = \<lfloor>\<bar>x\<bar> * 10 ^ f + 1 / 2\<rfloor>;
          m = decimal_digits n;
          m = (if f \<noteq> 0 \<and> length m \<le> f then replicate (f + 1 - length m) CHR ''0'' @ m else m);
          k = length m
      in if f \<noteq> 0 then s @ take (k - f) m @ ''.'' @ drop (k - f) m else s @ m)"

text \<open>
  The object that \<^verbatim>\<open>stats\<close> returns. The counters and the size are Numbers with natural
  values (below \<open>2\<^sup>5\<^sup>3\<close>, where \<^verbatim>\<open>++\<close> is exact); \<^verbatim>\<open>hitRate\<close> is kept as a
  JavaScript value with its type, a Number or a String.
\<close>

datatype js_primitive = JSNumber rat | JSString string

record snapshot =
  stats_hits :: nat
  stats_misses :: nat
  stats_hitRate :: js_primitive
  stats_size :: nat

text \<open>
  The local \<^verbatim>\<open>hitRate\<close> is the string of \<^verbatim>\<open>toFixed(2)\<close> or the number \<^verbatim>\<open>0\<close>, which the
  template literal prints as \<^verbatim>\<open>0\<close>; the property \<^verbatim>\<open>hitRate\<close> is the template string.
\<close>

definition stats :: "('e, 'v) MemoizedFunction \<Rightarrow> snapshot" where
  "stats this =
     (let total = hits this + misses this;
          hitRate =
            (if total > 0
             then toFixed 2 (to_double (to_double (of_nat (hits this) / of_nat total) * 100))
             else ''0'')
      in \<lparr>stats_hits = hits this, stats_misses = misses this,
          stats_hitRate = JSString (hitRate @ ''%''), stats_size = Map_size (cache this)\<rparr>)"

text \<open>The operations on an instance of the class, and a sequence of them.\<close>

datatype operation = Call "jsval list" | Stats | Clear

definition perform ::
  "('e, 'v) MemoizedFunction \<Rightarrow> operation \<Rightarrow> ('e, 'v) MemoizedFunction \<times> event list" where
  "perform this m =
     (case m of
        Call args \<Rightarrow> (case call this args of (r, this1, evs) \<Rightarrow> (this1, evs))
      | Stats \<Rightarrow> (this, [])
      | Clear \<Rightarrow> clear this)"

fun run_operations ::
  "('e, 'v) MemoizedFunction \<Rightarrow> operation list \<Rightarrow> ('e, 'v) MemoizedFunction \<times> event list" where
  "run_operations this [] = (this, [])"
| "run_operations this (m # ms) =
     (case perform this m of
        (this1, evs) \<Rightarrow>
          (case run_operations this1 ms of (this2, evs') \<Rightarrow> (this2, evs @ evs')))"


section \<open>Wrapped computations used in the examples\<close>

text \<open>
  \<^verbatim>\<open>x => { if (x === null) throw 'null'; return 1 }\<close> and
  \<^verbatim>\<open>x => { if (typeof x !== 'number') throw 'not a number'; return x * x * x }\<close>.
\<close>

definition null_sensitive :: "(string, nat) computation" where
  "null_sensitive args = (case args of JNull # _ \<Rightarrow> Inl ''null'' | _ \<Rightarrow> Inr 1)"

definition cube :: "(string, int) computation" where
  "cube args = (case args of JNum x # _ \<Rightarrow> Inr (x * x * x) | _ \<Rightarrow> Inl ''not a number'')"

text \<open>
  The wrapped function of a memoized Fibonacci function \<^verbatim>\<open>fib\<close>,
  \<^verbatim>\<open>n => { if (typeof n !== 'number') throw 'not a number';
  return n <= 1 ? n : fib(n - 1) + fib(n - 2) }\<close>: it calls \<^verbatim>\<open>fib(n - 1)\<close>, then
  \<^verbatim>\<open>fib(n - 2)\<close>, and an exception of either call propagates.
\<close>

definition fib_body :: "(string, int) reentrant_computation" where
  "fib_body memoized args store =
     (case args of
        JNum n # _ \<Rightarrow>
          if n \<le> 1 then Some (Inr n, store, [])
          else
            (case memoized [JNum (n - 1)] store of
               None \<Rightarrow> None
             | Some (Inl x, store1, evs1) \<Rightarrow> Some (Inl x, store1, evs1)
             | Some (Inr a, store1, evs1) \<Rightarrow>
                 (case memoized [JNum (n - 2)] store1 of
                    None \<Rightarrow> None
                  | Some (Inl x, store2, evs2) \<Rightarrow> Some (Inl x, store2, evs1 @ evs2)
                  | Some (Inr b, store2, evs2) \<Rightarrow> Some (Inr (a + b), store2, evs1 @ evs2)))
      | _ \<Rightarrow> Some (Inl ''not a number'', store, []))"


section \<open>Vocabulary of the statements\<close>

text \<open>
  A call paired with the value the wrapped computation returns for it, the cache entry that a
  miss on it stores, and the events of a sequence of misses.
\<close>

definition computes :: "('e, 'v) computation \<Rightarrow> jsval list \<times> 'v \<Rightarrow> bool" where
  "computes f av = (f (fst av) = Inr (snd av))"

definition cache_entry :: "jsval list \<times> 'v \<Rightarrow> string \<times> 'v" where
  "cache_entry av = (JSON_stringify (fst av), snd av)"

definition miss_events :: "jsval list list \<Rightarrow> event list" where
  "miss_events calls = concat (map (\<lambda>a. [LogComputing a, Invoke a]) calls)"

text \<open>
  The \<open>n\<close> most recently used keys of a history of keys, least recently used first:
  \<open>remdups\<close> keeps the last occurrence of every key.
\<close>

definition most_recent :: "nat \<Rightarrow> 'a list \<Rightarrow> 'a list" where
  "most_recent n ks = (let d = remdups ks in drop (length d - n) d)"

text \<open>The hit rate as the specification states it: the ratio of hits to lookups.\<close>

definition spec_hitRate :: "nat \<Rightarrow> nat \<Rightarrow> rat" where
  "spec_hitRate h m = of_nat h / of_nat (h + m)"


section \<open>Cache keys\<close>

lemma JSON_stringify_bracket: "\<exists>s. JSON_stringify args = CHR ''['' # s"
  by (simp add: JSON_stringify_def)

lemma key_undefined: "JSON_stringify [JUndefined] = ''[null]''"
  by (simp add: JSON_stringify_def)

lemma key_null: "JSON_stringify [JNull] = ''[null]''"
  by (simp add: JSON_stringify_def)

section \<open>The unbounded \<^verbatim>\<open>memoize\<close>\<close>

lemma memoize_hit:
  "c (JSON_stringify args) = Some v \<Longrightarrow>
     memoize f args c = (Inr v, c, [LogCacheHit (JSON_stringify args)])"
  by (simp add: memoize_def)

lemma memoize_result_cached:
  assumes "memoize f args c = (Inr v, c1, evs)"
  shows "c1 (JSON_stringify args) = Some v"
  using assms by (auto simp: memoize_def Let_def split: option.splits sum.splits)

text \<open>
  C10: the argument lists \<^verbatim>\<open>[undefined]\<close> and \<^verbatim>\<open>[null]\<close> both serialize to the key
  \<^verbatim>\<open>[null]\<close>; once a call of the memoized function with \<^verbatim>\<open>undefined\<close> has returned
  \<open>v\<close>, the call with \<^verbatim>\<open>null\<close> is a cache hit that returns \<open>v\<close> without calling the
  wrapped computation.
\<close>

theorem C10_undefined_and_null_share_key:
  assumes "memoize f [JUndefined] c = (Inr v, c1, evs)"
  shows "JSON_stringify [JUndefined] = ''[null]'' \<and> JSON_stringify [JNull] = ''[null]'' \<and>
         memoize f [JNull] c1 = (Inr v, c1, [LogCacheHit ''[null]''])"
proof -
  have "c1 (JSON_stringify [JUndefined]) = Some v"
    using assms by (rule memoize_result_cached)
  then have "c1 (JSON_stringify [JNull]) = Some v"
    by (simp add: key_undefined key_null)
  then have "memoize f [JNull] c1 = (Inr v, c1, [LogCacheHit (JSON_stringify [JNull])])"
    by (rule memoize_hit)
  then show ?thesis
    by (simp add: key_undefined key_null)
qed

theorem C10_witness:
  "memoize null_sensitive [JUndefined] Map.empty =
     (Inr 1, [''[null]'' \<mapsto> 1], [LogComputing [JUndefined], Invoke [JUndefined]]) \<and>
   null_sensitive [JNull] = Inl ''null'' \<and>
   memoize null_sensitive [JNull] [''[null]'' \<mapsto> 1] =
     (Inr 1, [''[null]'' \<mapsto> 1], [LogCacheHit ''[null]''])"
proof -
  have h: "memoize null_sensitive [JUndefined] Map.empty =
     (Inr 1, [''[null]'' \<mapsto> 1], [LogComputing [JUndefined], Invoke [JUndefined]])"
    by (simp add: memoize_def null_sensitive_def key_undefined)
  show ?thesis
    using h C10_undefined_and_null_share_key [OF h] by (simp add: null_sensitive_def)
qed

section \<open>Facts about the \<^verbatim>\<open>Map\<close> operations\<close>

lemma Map_has_iff_get: "Map_has k m \<longleftrightarrow> Map_get k m \<noteq> None"
  by (simp add: Map_has_def Map_get_def map_of_eq_None_iff)

lemma Map_has_keys: "Map_has k m \<longleftrightarrow> k \<in> set (Map_keys m)"
  by (simp add: Map_has_def Map_keys_def)

lemma Map_set_absent: "\<not> Map_has k m \<Longrightarrow> Map_set k v m = m @ [(k, v)]"
  by (induction m) (auto simp: Map_has_def)

lemma Map_get_set_same: "Map_get k (Map_set k v m) = Some v"
  by (induction m) (auto simp: Map_get_def)

lemma Map_get_set_other: "k' \<noteq> k \<Longrightarrow> Map_get k' (Map_set k v m) = Map_get k' m"
  by (induction m) (auto simp: Map_get_def)

lemma Map_keys_set_present: "Map_has k m \<Longrightarrow> Map_keys (Map_set k v m) = Map_keys m"
  by (induction m) (auto simp: Map_has_def Map_keys_def)

lemma Map_size_set_present: "Map_has k m \<Longrightarrow> Map_size (Map_set k v m) = Map_size m"
  by (induction m) (auto simp: Map_has_def Map_size_def)

lemma Map_has_delete: "\<not> Map_has k (Map_delete k m)"
  by (auto simp: Map_has_def Map_delete_def)

lemma Map_keys_delete: "Map_keys (Map_delete k m) = removeAll k (Map_keys m)"
  by (induction m) (auto simp: Map_keys_def Map_delete_def)

lemma Map_delete_absent: "\<not> Map_has k m \<Longrightarrow> Map_delete k m = m"
  by (induction m) (auto simp: Map_has_def Map_delete_def)

lemma Map_delete_first:
  assumes "distinct (Map_keys (p # m))"
  shows "Map_delete (fst p) (p # m) = m"
proof -
  from assms have "\<not> Map_has (fst p) m" by (simp add: Map_keys_def Map_has_def)
  then have "Map_delete (fst p) m = m" by (rule Map_delete_absent)
  then show ?thesis by (simp add: Map_delete_def)
qed

lemma Map_size_delete_present:
  "distinct (Map_keys m) \<Longrightarrow> Map_has k m \<Longrightarrow> Suc (Map_size (Map_delete k m)) = Map_size m"
proof (induction m)
  case Nil
  then show ?case by (simp add: Map_has_def)
next
  case (Cons p m)
  show ?case
  proof (cases "fst p = k")
    case True
    with Cons.prems have "Map_delete k (p # m) = m" using Map_delete_first [of p m] by simp
    then show ?thesis by (simp add: Map_size_def)
  next
    case False
    with Cons show ?thesis by (simp add: Map_delete_def Map_size_def Map_keys_def Map_has_def)
  qed
qed


section \<open>The capacity-bounded \<^verbatim>\<open>memoizeWithMaxSize\<close>\<close>

subsection \<open>One call\<close>

lemma maxsize_hit:
  assumes "Map_has (JSON_stringify args) c" and "f args = Inr v"
  shows "memoizeWithMaxSize f N args c =
           (Inr v, Map_delete (JSON_stringify args) c @ [(JSON_stringify args, v)],
            [LogCacheHit (JSON_stringify args), Invoke args])"
  using assms by (simp add: memoizeWithMaxSize_def Let_def Map_set_absent Map_has_delete)

lemma maxsize_hit_throws:
  assumes "Map_has (JSON_stringify args) c" and "f args = Inl x"
  shows "memoizeWithMaxSize f N args c =
           (Inl x, Map_delete (JSON_stringify args) c,
            [LogCacheHit (JSON_stringify args), Invoke args])"
  using assms by (simp add: memoizeWithMaxSize_def Let_def)

lemma maxsize_miss_throws:
  assumes "\<not> Map_has (JSON_stringify args) c" and "f args = Inl x"
  shows "memoizeWithMaxSize f N args c = (Inl x, c, [LogComputing args, Invoke args])"
  using assms by (simp add: memoizeWithMaxSize_def Let_def)

lemma maxsize_miss_room:
  assumes "\<not> Map_has (JSON_stringify args) c" and "f args = Inr v" and "int (Map_size c) < N"
  shows "memoizeWithMaxSize f N args c =
           (Inr v, c @ [(JSON_stringify args, v)], [LogComputing args, Invoke args])"
  using assms by (simp add: memoizeWithMaxSize_def Let_def Map_set_absent Map_size_def)

lemma maxsize_miss_full:
  assumes "\<not> Map_has (JSON_stringify args) c" and "f args = Inr v" and "N \<le> int (Map_size c)"
    and "distinct (Map_keys c)"
  shows "memoizeWithMaxSize f N args c =
           (Inr v, tl (c @ [(JSON_stringify args, v)]),
            [LogComputing args, Invoke args,
             LogEvicted (Some (hd (Map_keys c @ [JSON_stringify args])))])"
proof -
  let ?k = "JSON_stringify args"
  let ?c1 = "c @ [(?k, v)]"
  have set: "Map_set ?k v c = ?c1"
    using assms(1) by (rule Map_set_absent)
  have big: "int (Map_size ?c1) > N"
    using assms(3) by (simp add: Map_size_def)
  obtain p m where pm: "?c1 = p # m"
    by (cases ?c1) auto
  have d: "distinct (Map_keys (p # m))"
    using assms(1,4) pm [symmetric] by (auto simp: Map_keys_def Map_has_def)
  have del: "Map_delete (fst p) (p # m) = m"
    using d by (rule Map_delete_first)
  have first: "Map_first_key ?c1 = Some (fst p)"
    by (simp add: pm Map_first_key_def)
  have hd: "hd (Map_keys c @ [?k]) = fst p"
    using pm by (cases c) (auto simp: Map_keys_def)
  have tl: "tl ?c1 = m"
    by (simp add: pm)
  show ?thesis
    using assms(1,2) big
    by (simp add: memoizeWithMaxSize_def Let_def set first hd tl) (simp add: pm del)
qed

subsection \<open>Sequences of calls\<close>

lemma run_maxsize_append:
  "run_maxsize f N (xs @ ys) c =
     (case run_maxsize f N xs c of
        (rs, c1, evs) \<Rightarrow>
          (case run_maxsize f N ys c1 of (rs', c2, evs') \<Rightarrow> (rs @ rs', c2, evs @ evs')))"
  by (induction xs arbitrary: c) (auto split: prod.splits)

lemma run_maxsize_snoc:
  assumes "run_maxsize f N xs c = (rs, c1, evs)"
    and "memoizeWithMaxSize f N a c1 = (r, c2, evs')"
  shows "run_maxsize f N (xs @ [a]) c = (rs @ [r], c2, evs @ evs')"
  using assms by (simp add: run_maxsize_append)

lemma maxsize_fill:
  assumes "distinct (map (JSON_stringify \<circ> fst) cvs)" and "int (length cvs) \<le> N"
    and "\<forall>av \<in> set cvs. computes f av"
  shows "run_maxsize f N (map fst cvs) [] =
           (map (Inr \<circ> snd) cvs, map cache_entry cvs, miss_events (map fst cvs))"
  using assms
proof (induction cvs rule: rev_induct)
  case Nil
  then show ?case by (simp add: miss_events_def)
next
  case (snoc av cvs)
  let ?c = "map cache_entry cvs"
  let ?k = "JSON_stringify (fst av)"
  have run: "run_maxsize f N (map fst cvs) [] =
      (map (Inr \<circ> snd) cvs, ?c, miss_events (map fst cvs))"
    using snoc by simp
  have absent: "\<not> Map_has ?k ?c"
    using snoc.prems(1) by (auto simp: Map_has_def cache_entry_def image_iff)
  have ret: "f (fst av) = Inr (snd av)"
    using snoc.prems(3) by (simp add: computes_def)
  have room: "int (Map_size ?c) < N"
    using snoc.prems(2) by (simp add: Map_size_def)
  have step: "memoizeWithMaxSize f N (fst av) ?c =
      (Inr (snd av), ?c @ [(?k, snd av)], [LogComputing (fst av), Invoke (fst av)])"
    using absent ret room by (rule maxsize_miss_room)
  show ?case
    using run_maxsize_snoc [OF run step] by (simp add: cache_entry_def miss_events_def)
qed

lemma maxsize_overflow:
  assumes "distinct (map (JSON_stringify \<circ> fst) cvs)" and "int (length cvs) = N + 1"
    and "\<forall>av \<in> set cvs. computes f av" and "0 \<le> N"
  shows "run_maxsize f N (map fst cvs) [] =
           (map (Inr \<circ> snd) cvs, map cache_entry (tl cvs),
            miss_events (map fst cvs) @ [LogEvicted (Some (JSON_stringify (fst (hd cvs))))])"
proof -
  from assms(2,4) have ne: "cvs \<noteq> []" by auto
  then obtain cvs' av where split: "cvs = cvs' @ [av]"
    by (metis rev_exhaust)
  let ?c = "map cache_entry cvs'"
  let ?k = "JSON_stringify (fst av)"
  have run: "run_maxsize f N (map fst cvs') [] =
      (map (Inr \<circ> snd) cvs', ?c, miss_events (map fst cvs'))"
    using assms(1,2,3) by (intro maxsize_fill) (auto simp: split)
  have absent: "\<not> Map_has ?k ?c"
    using assms(1) by (auto simp: split Map_has_def cache_entry_def image_iff)
  have ret: "f (fst av) = Inr (snd av)"
    using assms(3) by (simp add: split computes_def)
  have full: "N \<le> int (Map_size ?c)"
    using assms(2) by (simp add: split Map_size_def)
  have dist: "distinct (Map_keys ?c)"
    using assms(1) by (simp add: split Map_keys_def cache_entry_def comp_def)
  have step: "memoizeWithMaxSize f N (fst av) ?c =
      (Inr (snd av), tl (?c @ [(?k, snd av)]),
       [LogComputing (fst av), Invoke (fst av), LogEvicted (Some (hd (Map_keys ?c @ [?k])))])"
    using absent ret full dist by (rule maxsize_miss_full)
  have keys: "Map_keys ?c @ [?k] = map (JSON_stringify \<circ> fst) cvs"
    by (simp add: split Map_keys_def cache_entry_def comp_def)
  have hd: "hd (map (JSON_stringify \<circ> fst) cvs) = JSON_stringify (fst (hd cvs))"
    using ne by (simp add: hd_map)
  have ents: "?c @ [(?k, snd av)] = map cache_entry cvs"
    by (simp add: split cache_entry_def)
  show ?thesis
    using run_maxsize_snoc [OF run step]
    by (simp add: keys hd ents map_tl) (simp add: split miss_events_def)
qed

lemma evictions_miss_events: "evictions (miss_events calls) = []"
  by (induction calls) (auto simp: evictions_def miss_events_def)

lemma hit_count_miss_events: "hit_count (miss_events calls) = 0"
  by (induction calls) (auto simp: hit_count_def miss_events_def)

lemma invocations_miss_events: "invocations (miss_events calls) = calls"
  by (induction calls) (auto simp: invocations_def miss_events_def)

lemma maxsize_hit_then_miss:
  assumes N: "2 \<le> N" and dist: "distinct (Map_keys c)" and full: "int (Map_size c) = N"
    and hit: "Map_has (JSON_stringify a) c" and fa: "f a = Inr v"
    and miss: "\<not> Map_has (JSON_stringify a') c" and fa': "f a' = Inr v'"
  shows "memoizeWithMaxSize f N a c =
           (Inr v, Map_delete (JSON_stringify a) c @ [(JSON_stringify a, v)],
            [LogCacheHit (JSON_stringify a), Invoke a])"
    and "memoizeWithMaxSize f N a' (Map_delete (JSON_stringify a) c @ [(JSON_stringify a, v)]) =
           (Inr v', tl (Map_delete (JSON_stringify a) c) @
                    [(JSON_stringify a, v), (JSON_stringify a', v')],
            [LogComputing a', Invoke a',
             LogEvicted (Some (hd (removeAll (JSON_stringify a) (Map_keys c))))])"
    and "hd (removeAll (JSON_stringify a) (Map_keys c)) \<noteq> JSON_stringify a"
    and "hd (removeAll (JSON_stringify a) (Map_keys c)) \<in> set (Map_keys c)"
proof -
  let ?k = "JSON_stringify a"
  let ?k' = "JSON_stringify a'"
  let ?d = "Map_delete ?k c"
  let ?c1 = "?d @ [(?k, v)]"
  show "memoizeWithMaxSize f N a c = (Inr v, ?c1, [LogCacheHit ?k, Invoke a])"
    using hit fa by (rule maxsize_hit)
  have size_d: "Suc (Map_size ?d) = Map_size c"
    using dist hit by (rule Map_size_delete_present)
  with N full have d_ne: "?d \<noteq> []"
    by (auto simp: Map_size_def)
  have keys_d: "Map_keys ?d = removeAll ?k (Map_keys c)"
    by (rule Map_keys_delete)
  have ne: "removeAll ?k (Map_keys c) \<noteq> []"
    using d_ne keys_d by (auto simp: Map_keys_def)
  have neq: "?k \<noteq> ?k'"
    using hit miss by auto
  have miss1: "\<not> Map_has ?k' ?c1"
    using miss neq by (auto simp: Map_has_def Map_delete_def)
  have full1: "N \<le> int (Map_size ?c1)"
    using size_d full by (simp add: Map_size_def)
  have dist1: "distinct (Map_keys ?c1)"
    using dist keys_d by (simp add: Map_keys_def distinct_removeAll)
  have "memoizeWithMaxSize f N a' ?c1 =
      (Inr v', tl (?c1 @ [(?k', v')]),
       [LogComputing a', Invoke a', LogEvicted (Some (hd (Map_keys ?c1 @ [?k'])))])"
    using miss1 fa' full1 dist1 by (rule maxsize_miss_full)
  moreover have "tl (?c1 @ [(?k', v')]) = tl ?d @ [(?k, v), (?k', v')]"
    using d_ne by simp
  moreover have "hd (Map_keys ?c1 @ [?k']) = hd (removeAll ?k (Map_keys c))"
    using ne keys_d by (simp add: Map_keys_def)
  ultimately show "memoizeWithMaxSize f N a' ?c1 =
      (Inr v', tl ?d @ [(?k, v), (?k', v')],
       [LogComputing a', Invoke a', LogEvicted (Some (hd (removeAll ?k (Map_keys c))))])"
    by simp
  have "hd (removeAll ?k (Map_keys c)) \<in> set (removeAll ?k (Map_keys c))"
    using ne by (rule hd_in_set)
  then show "hd (removeAll ?k (Map_keys c)) \<noteq> ?k"
    and "hd (removeAll ?k (Map_keys c)) \<in> set (Map_keys c)"
    by auto
qed

subsection \<open>Hits call the wrapped computation again\<close>

lemma memoize_miss:
  "c (JSON_stringify args) = None \<Longrightarrow> f args = Inr v \<Longrightarrow>
     memoize f args c =
       (Inr v, c(JSON_stringify args \<mapsto> v), [LogComputing args, Invoke args])"
  by (simp add: memoize_def)

lemma memoize_twice:
  assumes "c (JSON_stringify args) = None" and "f args = Inr v"
  shows "run_memoize f [args, args] c =
           ([Inr v, Inr v], c(JSON_stringify args \<mapsto> v),
            [LogComputing args, Invoke args, LogCacheHit (JSON_stringify args)])"
  using assms by (simp add: memoize_miss memoize_hit)

lemma memoize_Map_twice:
  assumes "Map_get arg c = None" and "f arg = Inr v"
  shows "memoize_Map f arg c = (Inr v, Map_set arg v c, [arg]) \<and>
         memoize_Map f arg (Map_set arg v c) = (Inr v, Map_set arg v c, [])"
  using assms by (simp add: memoize_Map_def Map_get_set_same)

lemma maxsize_twice:
  assumes "\<not> Map_has (JSON_stringify args) c" and "f args = Inr v" and "int (Map_size c) < N"
  shows "run_maxsize f N [args, args] c =
           ([Inr v, Inr v], c @ [(JSON_stringify args, v)],
            [LogComputing args, Invoke args, LogCacheHit (JSON_stringify args), Invoke args])"
proof -
  let ?k = "JSON_stringify args"
  have first: "memoizeWithMaxSize f N args c =
      (Inr v, c @ [(?k, v)], [LogComputing args, Invoke args])"
    using assms by (rule maxsize_miss_room)
  have has: "Map_has ?k (c @ [(?k, v)])"
    by (simp add: Map_has_def)
  have del: "Map_delete ?k (c @ [(?k, v)]) = c"
    using assms(1) by (simp add: Map_delete_def Map_delete_absent [unfolded Map_delete_def])
  have second: "memoizeWithMaxSize f N args (c @ [(?k, v)]) =
      (Inr v, c @ [(?k, v)], [LogCacheHit ?k, Invoke args])"
    using maxsize_hit [of args "c @ [(?k, v)]" f v N] has assms(2) by (simp add: del)
  show ?thesis
    by (simp add: first second)
qed

text \<open>
  C1 holds for the two unbounded \<^verbatim>\<open>memoize\<close> functions (lemmas \<open>memoize_twice\<close> and
  \<open>memoize_Map_twice\<close>) and fails for
  \<^verbatim>\<open>memoizeWithMaxSize\<close>: with capacity 3, the calls \<^verbatim>\<open>f(1), f(1)\<close> on an empty cache
  return the same value, and the second call, a hit, calls the wrapped computation a second
  time.
\<close>

theorem C1_maxsize_hit_calls_fn_again:
  "run_maxsize cube 3 [[JNum 1], [JNum 1]] [] =
     ([Inr 1, Inr 1], [(''[1]'', 1)],
      [LogComputing [JNum 1], Invoke [JNum 1], LogCacheHit ''[1]'', Invoke [JNum 1]]) \<and>
   invocations (snd (snd (run_maxsize cube 3 [[JNum 1], [JNum 1]] []))) = [[JNum 1], [JNum 1]]"
  by code_simp

subsection \<open>A computation that throws\<close>

lemma memoize_throws:
  "f args = Inl x \<Longrightarrow>
     memoize f args c =
       (case c (JSON_stringify args) of
          None \<Rightarrow> (Inl x, c, [LogComputing args, Invoke args])
        | Some v \<Rightarrow> (Inr v, c, [LogCacheHit (JSON_stringify args)]))"
  by (simp add: memoize_def split: option.splits)

lemma memoizeWithTTL_throws:
  "f args = Inl x \<Longrightarrow> memoizeWithTTL f T args now now' c = (r, c', evs) \<Longrightarrow> c' = c"
  by (auto simp: memoizeWithTTL_def Let_def split: option.splits if_splits)

lemma call_throws:
  "fn this args = Inl x \<Longrightarrow> call this args = (r, this', evs) \<Longrightarrow> cache this' = cache this"
  by (auto simp: call_def Let_def split: option.splits)

text \<open>
  C4 holds for \<^verbatim>\<open>memoize\<close>, \<^verbatim>\<open>memoizeWithTTL\<close> and \<^verbatim>\<open>MemoizedFunction.call\<close>, whose cache
  is unchanged when the wrapped computation throws. It fails for \<^verbatim>\<open>memoizeWithMaxSize\<close>:
  after \<^verbatim>\<open>f(undefined)\<close> has stored a value under the key \<^verbatim>\<open>[null]\<close>, the call
  \<^verbatim>\<open>f(null)\<close> is a hit, deletes that entry, calls the wrapped computation, which throws,
  and leaves the cache without the entry.
\<close>

theorem C4_maxsize_throwing_hit_loses_entry:
  "memoizeWithMaxSize null_sensitive 3 [JUndefined] [] =
     (Inr 1, [(''[null]'', 1)], [LogComputing [JUndefined], Invoke [JUndefined]]) \<and>
   memoizeWithMaxSize null_sensitive 3 [JNull] [(''[null]'', 1)] =
     (Inl ''null'', [], [LogCacheHit ''[null]'', Invoke [JNull]])"
  by code_simp

subsection \<open>Capacity eviction\<close>

text \<open>
  C2, as amended. With \<^verbatim>\<open>maxSize = N \<ge> 0\<close>, \<open>N + 1\<close> calls with pairwise distinct keys on
  an empty cache are all misses and evict exactly one entry, the key of the first call, which
  is the least recently used one. With \<open>N \<ge> 2\<close>, a hit on a key of a full cache whose
  recomputation returns puts that key last in the Map, so the insertion of a new key that
  follows evicts the first of the other keys and not the key that was hit.
\<close>

theorem C2_capacity_eviction:
  "(\<forall>cvs. 0 \<le> N \<and> distinct (map (JSON_stringify \<circ> fst) cvs) \<and> int (length cvs) = N + 1 \<and>
          (\<forall>av \<in> set cvs. computes (f :: ('e, 'v) computation) av) \<longrightarrow>
      run_maxsize f N (map fst cvs) [] =
        (map (Inr \<circ> snd) cvs, map cache_entry (tl cvs),
         miss_events (map fst cvs) @ [LogEvicted (Some (JSON_stringify (fst (hd cvs))))]) \<and>
      evictions (snd (snd (run_maxsize f N (map fst cvs) []))) =
        [Some (JSON_stringify (fst (hd cvs)))]) \<and>
   (\<forall>c a v a' v'.
      2 \<le> N \<and> distinct (Map_keys c) \<and> int (Map_size c) = N \<and>
      Map_has (JSON_stringify a) c \<and> f a = Inr v \<and>
      \<not> Map_has (JSON_stringify a') c \<and> f a' = Inr v' \<longrightarrow>
      memoizeWithMaxSize f N a c =
        (Inr v, Map_delete (JSON_stringify a) c @ [(JSON_stringify a, v)],
         [LogCacheHit (JSON_stringify a), Invoke a]) \<and>
      memoizeWithMaxSize f N a' (Map_delete (JSON_stringify a) c @ [(JSON_stringify a, v)]) =
        (Inr v', tl (Map_delete (JSON_stringify a) c) @
                 [(JSON_stringify a, v), (JSON_stringify a', v')],
         [LogComputing a', Invoke a',
          LogEvicted (Some (hd (removeAll (JSON_stringify a) (Map_keys c))))]) \<and>
      hd (removeAll (JSON_stringify a) (Map_keys c)) \<noteq> JSON_stringify a)"
proof (intro conjI allI impI)
  fix cvs
  assume h: "0 \<le> N \<and> distinct (map (JSON_stringify \<circ> fst) cvs) \<and> int (length cvs) = N + 1 \<and>
          (\<forall>av \<in> set cvs. computes f av)"
  then have run: "run_maxsize f N (map fst cvs) [] =
        (map (Inr \<circ> snd) cvs, map cache_entry (tl cvs),
         miss_events (map fst cvs) @ [LogEvicted (Some (JSON_stringify (fst (hd cvs))))])"
    by (intro maxsize_overflow) auto
  then show "run_maxsize f N (map fst cvs) [] =
        (map (Inr \<circ> snd) cvs, map cache_entry (tl cvs),
         miss_events (map fst cvs) @ [LogEvicted (Some (JSON_stringify (fst (hd cvs))))])" .
  show "evictions (snd (snd (run_maxsize f N (map fst cvs) []))) =
        [Some (JSON_stringify (fst (hd cvs)))]"
    using evictions_miss_events [of "map fst cvs"] by (simp add: run evictions_def)
next
  fix c :: "(string, 'v) js_Map" and a v a' v'
  assume h: "2 \<le> N \<and> distinct (Map_keys c) \<and> int (Map_size c) = N \<and>
      Map_has (JSON_stringify a) c \<and> f a = Inr v \<and>
      \<not> Map_has (JSON_stringify a') c \<and> f a' = Inr v'"
  show "memoizeWithMaxSize f N a c =
        (Inr v, Map_delete (JSON_stringify a) c @ [(JSON_stringify a, v)],
         [LogCacheHit (JSON_stringify a), Invoke a])"
    using h by (intro maxsize_hit_then_miss(1)) auto
  show "memoizeWithMaxSize f N a' (Map_delete (JSON_stringify a) c @ [(JSON_stringify a, v)]) =
        (Inr v', tl (Map_delete (JSON_stringify a) c) @
                 [(JSON_stringify a, v), (JSON_stringify a', v')],
         [LogComputing a', Invoke a',
          LogEvicted (Some (hd (removeAll (JSON_stringify a) (Map_keys c))))])"
    using h by (intro maxsize_hit_then_miss(2)) auto
  show "hd (removeAll (JSON_stringify a) (Map_keys c)) \<noteq> JSON_stringify a"
    using h by (intro maxsize_hit_then_miss(3)) auto
qed

text \<open>
  The scenario of the source: capacity 3 and the calls \<^verbatim>\<open>f(1), f(2), f(3), f(4)\<close>; and a hit
  on \<^verbatim>\<open>f(1)\<close> before \<^verbatim>\<open>f(4)\<close>, which makes \<^verbatim>\<open>[2]\<close> the evicted key.
\<close>

theorem C2_witness:
  "run_maxsize cube 3 [[JNum 1], [JNum 2], [JNum 3], [JNum 4]] [] =
     ([Inr 1, Inr 8, Inr 27, Inr 64], [(''[2]'', 8), (''[3]'', 27), (''[4]'', 64)],
      [LogComputing [JNum 1], Invoke [JNum 1], LogComputing [JNum 2], Invoke [JNum 2],
       LogComputing [JNum 3], Invoke [JNum 3], LogComputing [JNum 4], Invoke [JNum 4],
       LogEvicted (Some ''[1]'')]) \<and>
   memoizeWithMaxSize cube 3 [JNum 1] [(''[1]'', 1), (''[2]'', 8), (''[3]'', 27)] =
     (Inr 1, [(''[2]'', 8), (''[3]'', 27), (''[1]'', 1)], [LogCacheHit ''[1]'', Invoke [JNum 1]]) \<and>
   memoizeWithMaxSize cube 3 [JNum 4] [(''[2]'', 8), (''[3]'', 27), (''[1]'', 1)] =
     (Inr 64, [(''[3]'', 27), (''[1]'', 1), (''[4]'', 64)],
      [LogComputing [JNum 4], Invoke [JNum 4], LogEvicted (Some ''[2]'')])"
proof -
  let ?cvs = "[([JNum 1], 1), ([JNum 2], 8), ([JNum 3], 27), ([JNum 4], 64 :: int)]"
  let ?c = "[(''[1]'', 1), (''[2]'', 8), (''[3]'', 27 :: int)]"
  have k: "JSON_stringify [JNum 1] = ''[1]''" "JSON_stringify [JNum 2] = ''[2]''"
    "JSON_stringify [JNum 3] = ''[3]''" "JSON_stringify [JNum 4] = ''[4]''"
    by code_simp+
  have h1: "(0::int) \<le> 3 \<and> distinct (map (JSON_stringify \<circ> fst) ?cvs) \<and>
      int (length ?cvs) = 3 + 1 \<and> (\<forall>av \<in> set ?cvs. computes cube av)"
    by (simp add: k computes_def cube_def)
  have h2: "(2::int) \<le> 3 \<and> distinct (Map_keys ?c) \<and> int (Map_size ?c) = 3 \<and>
      Map_has (JSON_stringify [JNum 1]) ?c \<and> cube [JNum 1] = Inr 1 \<and>
      \<not> Map_has (JSON_stringify [JNum 4]) ?c \<and> cube [JNum 4] = Inr 64"
    by (simp add: k Map_keys_def Map_size_def Map_has_def cube_def)
  note t = C2_capacity_eviction [of 3 cube]
  from t h1 have a: "run_maxsize cube 3 (map fst ?cvs) [] =
        (map (Inr \<circ> snd) ?cvs, map cache_entry (tl ?cvs),
         miss_events (map fst ?cvs) @ [LogEvicted (Some (JSON_stringify (fst (hd ?cvs))))])"
    by blast
  from t h2 have b: "memoizeWithMaxSize cube 3 [JNum 1] ?c =
        (Inr 1, Map_delete (JSON_stringify [JNum 1]) ?c @ [(JSON_stringify [JNum 1], 1)],
         [LogCacheHit (JSON_stringify [JNum 1]), Invoke [JNum 1]]) \<and>
      memoizeWithMaxSize cube 3 [JNum 4]
        (Map_delete (JSON_stringify [JNum 1]) ?c @ [(JSON_stringify [JNum 1], 1)]) =
        (Inr 64, tl (Map_delete (JSON_stringify [JNum 1]) ?c) @
                 [(JSON_stringify [JNum 1], 1), (JSON_stringify [JNum 4], 64)],
         [LogComputing [JNum 4], Invoke [JNum 4],
          LogEvicted (Some (hd (removeAll (JSON_stringify [JNum 1]) (Map_keys ?c))))])"
    by blast
  from a b show ?thesis
    by (simp add: k cache_entry_def miss_events_def Map_delete_def Map_keys_def)
qed

text \<open>
  C2 as stated fails for \<open>N = 1\<close>: the key that was hit is the only entry, and the insertion
  that follows evicts it.
\<close>

theorem C2_counterexample:
  "run_maxsize cube 1 [[JNum 1], [JNum 1], [JNum 2]] [] =
     ([Inr 1, Inr 1, Inr 8], [(''[2]'', 8)],
      [LogComputing [JNum 1], Invoke [JNum 1], LogCacheHit ''[1]'', Invoke [JNum 1],
       LogComputing [JNum 2], Invoke [JNum 2], LogEvicted (Some ''[1]'')])"
  by code_simp

subsection \<open>The size bound\<close>

lemma remdups_snoc: "remdups (xs @ [x]) = removeAll x (remdups xs) @ [x]"
  by (induction xs) auto

lemma Map_keys_append: "Map_keys (m @ [(k, v)]) = Map_keys m @ [k]"
  by (simp add: Map_keys_def)

lemma Map_keys_tl: "Map_keys (tl m) = tl (Map_keys m)"
  by (simp add: Map_keys_def map_tl)

lemma maxsize_step_invariant:
  assumes N: "0 \<le> N" and dist: "distinct (Map_keys c)" and size: "int (Map_size c) \<le> N"
    and step: "memoizeWithMaxSize f N a c = (r, c', evs)"
  shows "distinct (Map_keys c') \<and> int (Map_size c') \<le> N"
proof -
  let ?k = "JSON_stringify a"
  show ?thesis
  proof (cases "Map_has ?k c")
    case True
    have sz: "Suc (Map_size (Map_delete ?k c)) = Map_size c"
      using dist True by (rule Map_size_delete_present)
    have dk: "distinct (Map_keys (Map_delete ?k c))"
      using dist by (simp add: Map_keys_delete distinct_removeAll)
    show ?thesis
    proof (cases "f a")
      case (Inl x)
      from maxsize_hit_throws [where f = f and args = a and N = N, OF True Inl] step have "c' = Map_delete ?k c" by simp
      with dk sz size show ?thesis by simp
    next
      case (Inr v)
      from maxsize_hit [where f = f and args = a and N = N, OF True Inr] step have c': "c' = Map_delete ?k c @ [(?k, v)]" by simp
      have "distinct (Map_keys c')"
        using dist by (simp add: c' Map_keys_append Map_keys_delete distinct_removeAll)
      moreover have "Map_size c' = Map_size c"
        using sz by (simp add: c' Map_size_def)
      ultimately show ?thesis using size by simp
    qed
  next
    case False
    show ?thesis
    proof (cases "f a")
      case (Inl x)
      from maxsize_miss_throws [where f = f and args = a and N = N, OF False Inl] step have "c' = c" by simp
      with dist size show ?thesis by simp
    next
      case (Inr v)
      have d1: "distinct (Map_keys (c @ [(?k, v)]))"
        using dist False by (simp add: Map_keys_append Map_has_keys)
      show ?thesis
      proof (cases "int (Map_size c) < N")
        case True
        from maxsize_miss_room [where f = f and args = a, OF False Inr True] step have c': "c' = c @ [(?k, v)]" by simp
        show ?thesis using d1 True by (simp add: c' Map_size_def)
      next
        case full: False
        then have "N \<le> int (Map_size c)" by simp
        from maxsize_miss_full [where f = f and args = a, OF False Inr this dist] step
        have c': "c' = tl (c @ [(?k, v)])" by simp
        have "distinct (Map_keys c')"
          using d1 unfolding c' Map_keys_tl by (rule distinct_tl)
        moreover have "Map_size c' = Map_size c"
          by (simp add: c' Map_size_def)
        ultimately show ?thesis using size by simp
      qed
    qed
  qed
qed

lemma run_maxsize_invariant:
  assumes "0 \<le> N" and "distinct (Map_keys c)" and "int (Map_size c) \<le> N"
    and "run_maxsize f N calls c = (rs, c', evs)"
  shows "distinct (Map_keys c') \<and> int (Map_size c') \<le> N"
  using assms(2-)
proof (induction calls arbitrary: c rs evs)
  case Nil
  then show ?case by simp
next
  case (Cons a calls)
  obtain r c1 e1 where step: "memoizeWithMaxSize f N a c = (r, c1, e1)"
    by (cases "memoizeWithMaxSize f N a c") auto
  obtain rs2 c2 e2 where rest: "run_maxsize f N calls c1 = (rs2, c2, e2)"
    by (cases "run_maxsize f N calls c1") auto
  have inv1: "distinct (Map_keys c1) \<and> int (Map_size c1) \<le> N"
    using assms(1) Cons.prems(1,2) step by (rule maxsize_step_invariant)
  have "c' = c2"
    using Cons.prems(3) by (simp add: step rest)
  with Cons.IH [of c1 rs2 e2] inv1 rest show ?case by simp
qed


subsection \<open>The order of the Map is the order of last use\<close>

lemma drop_short_append: "Suc (length xs) = m \<Longrightarrow> drop m (xs @ ys) = tl ys"
  by (cases ys) auto

lemma tl_drop_snoc:
  assumes "m \<le> length d"
  shows "drop (Suc m) (d @ [k]) = tl (drop m d @ [k])"
proof -
  from assms have "drop m (d @ [k]) = drop m d @ [k]" by simp
  then have "tl (drop m (d @ [k])) = tl (drop m d @ [k])" by (rule arg_cong)
  moreover have "drop (Suc m) (d @ [k]) = tl (drop m (d @ [k]))"
    by (simp only: drop_Suc drop_tl)
  ultimately show ?thesis by (rule trans [rotated])
qed

lemma removeAll_take_drop:
  "removeAll k d = removeAll k (take m d) @ removeAll k (drop m d)"
  by (metis append_take_drop_id removeAll_append)

lemma lru_touch:
  assumes "distinct d" and "k \<in> set (drop m d)"
  shows "drop m (removeAll k d @ [k]) = removeAll k (drop m d) @ [k]"
proof -
  have "distinct (take m d @ drop m d)" using assms(1) by simp
  then have "k \<notin> set (take m d)" using assms(2) by (auto simp del: append_take_drop_id)
  then have "removeAll k (take m d) = take m d" by simp
  then have eq: "removeAll k d = take m d @ removeAll k (drop m d)"
    using removeAll_take_drop [of k d m] by simp
  have "m < length d" using assms(2) by (cases "m < length d") auto
  then have "length (take m d) = m" by simp
  then show ?thesis by (simp add: eq)
qed

lemma lru_reinsert:
  assumes "distinct d" and "k \<in> set d" and "k \<notin> set (drop m d)" and "m \<le> length d"
  shows "drop m (removeAll k d @ [k]) = tl (drop m d @ [k])"
proof -
  have "set d = set (take m d) \<union> set (drop m d)"
    by (metis append_take_drop_id set_append)
  then have in_take: "k \<in> set (take m d)" using assms(2,3) by auto
  have lt: "length (take m d) = m" using assms(4) by simp
  have "distinct (take m d)" using assms(1) by simp
  then have "length (removeAll k (take m d)) = length (take m d) - 1"
    using in_take by (simp add: distinct_remove1_removeAll [symmetric] length_remove1)
  moreover have "0 < length (take m d)"
    using in_take by (rule length_pos_if_in_set)
  ultimately have len: "Suc (length (removeAll k (take m d))) = m"
    using lt by simp
  have eq: "removeAll k d = removeAll k (take m d) @ drop m d"
    using removeAll_take_drop [of k d m] assms(3) by simp
  have "drop m (removeAll k (take m d) @ (drop m d @ [k])) = tl (drop m d @ [k])"
    using len by (rule drop_short_append)
  then show ?thesis by (simp add: eq)
qed

lemma length_move_to_end:
  assumes "distinct d" and "k \<in> set d"
  shows "length (removeAll k d @ [k]) = length d"
proof -
  have "length (removeAll k d) = length d - 1"
    using assms by (simp add: distinct_remove1_removeAll [symmetric] length_remove1)
  moreover have "0 < length d"
    using assms(2) by (rule length_pos_if_in_set)
  ultimately show ?thesis by simp
qed

lemma most_recent_snoc:
  "most_recent n (ks @ [k]) =
     (let s = most_recent n ks in
      if k \<in> set s then removeAll k s @ [k]
      else if length s < n then s @ [k]
      else tl (s @ [k]))"
proof -
  let ?d = "remdups ks"
  let ?m = "length ?d - n"
  let ?s = "drop ?m ?d"
  let ?d' = "removeAll k ?d @ [k]"
  have d: "distinct ?d" by simp
  have s: "most_recent n ks = ?s" by (simp add: most_recent_def Let_def)
  have s': "most_recent n (ks @ [k]) = drop (length ?d' - n) ?d'"
    by (simp add: most_recent_def remdups_snoc Let_def)
  have len_in: "k \<in> set ?d \<Longrightarrow> length ?d' = length ?d"
    using d by (rule length_move_to_end)
  have len_out: "k \<notin> set ?d \<Longrightarrow> ?d' = ?d @ [k]"
    by simp
  show ?thesis
  proof (cases "k \<in> set ?s")
    case True
    then have "k \<in> set ?d" by (meson in_set_dropD)
    then have "length ?d' - n = ?m" using len_in by simp
    then have "most_recent n (ks @ [k]) = drop ?m ?d'" using s' by simp
    also have "\<dots> = removeAll k ?s @ [k]" using d True by (rule lru_touch)
    finally show ?thesis using True by (simp add: s Let_def)
  next
    case False
    show ?thesis
    proof (cases "length ?s < n")
      case True
      then have small: "length ?d < n" by auto
      then have "?s = ?d" by simp
      with False have "k \<notin> set ?d" by simp
      then have "?d' = ?d @ [k]" by simp
      then have "drop (length ?d' - n) ?d' = ?d @ [k]" using small by simp
      then show ?thesis using False True small by (simp add: s s' Let_def)
    next
      case full: False
      then have big: "n \<le> length ?d" by auto
      have "drop (length ?d' - n) ?d' = tl (?s @ [k])"
      proof (cases "k \<in> set ?d")
        case True
        then have "length ?d' - n = ?m" using len_in by simp
        moreover have "drop ?m ?d' = tl (?s @ [k])"
          using d True False by (rule lru_reinsert) simp
        ultimately show ?thesis by simp
      next
        case out: False
        then have "?d' = ?d @ [k]" by simp
        moreover have "length (?d @ [k]) - n = Suc ?m" using big by simp
        moreover have "drop (Suc ?m) (?d @ [k]) = tl (?s @ [k])"
          by (rule tl_drop_snoc) simp
        ultimately show ?thesis by simp
      qed
      then show ?thesis using False full by (simp add: s s' Let_def)
    qed
  qed
qed

lemma maxsize_step_keys:
  assumes dist: "distinct (Map_keys c)" and ret: "f a = Inr v"
    and step: "memoizeWithMaxSize f N a c = (r, c', evs)"
  shows "Map_keys c' =
           (let s = Map_keys c; k = JSON_stringify a in
            if k \<in> set s then removeAll k s @ [k]
            else if int (length s) < N then s @ [k]
            else tl (s @ [k]))"
proof -
  let ?k = "JSON_stringify a"
  show ?thesis
  proof (cases "Map_has ?k c")
    case True
    from maxsize_hit [where f = f and args = a and N = N, OF True ret] step
    have "c' = Map_delete ?k c @ [(?k, v)]" by simp
    then show ?thesis
      using True by (simp add: Map_keys_append Map_keys_delete Map_has_keys Let_def)
  next
    case False
    show ?thesis
    proof (cases "int (Map_size c) < N")
      case True
      from maxsize_miss_room [where f = f and args = a, OF False ret True] step
      have "c' = c @ [(?k, v)]" by simp
      then show ?thesis
        using False True by (simp add: Map_keys_append Map_has_keys Let_def Map_size_def Map_keys_def)
    next
      case full: False
      then have "N \<le> int (Map_size c)" by simp
      from maxsize_miss_full [where f = f and args = a, OF False ret this dist] step
      have "c' = tl (c @ [(?k, v)])" by simp
      then have "Map_keys c' = tl (Map_keys c @ [?k])"
        by (simp only: Map_keys_tl Map_keys_append)
      then show ?thesis
        using False full by (simp add: Map_has_keys Let_def Map_size_def Map_keys_def)
    qed
  qed
qed

lemma run_maxsize_lru:
  assumes N: "0 \<le> N" and ret: "\<forall>a \<in> set calls. \<exists>v. f a = Inr v"
    and run: "run_maxsize f N calls [] = (rs, c, evs)"
  shows "Map_keys c = most_recent (nat N) (map JSON_stringify calls)"
  using ret run
proof (induction calls arbitrary: rs c evs rule: rev_induct)
  case Nil
  then show ?case by (simp add: most_recent_def Map_keys_def)
next
  case (snoc a calls)
  obtain rs1 c1 e1 where run1: "run_maxsize f N calls [] = (rs1, c1, e1)"
    by (cases "run_maxsize f N calls []") auto
  obtain r c2 e2 where step: "memoizeWithMaxSize f N a c1 = (r, c2, e2)"
    by (cases "memoizeWithMaxSize f N a c1") auto
  have c: "c = c2"
    using snoc.prems(2) run_maxsize_snoc [OF run1 step] by simp
  have keys1: "Map_keys c1 = most_recent (nat N) (map JSON_stringify calls)"
    using snoc.IH [OF _ run1] snoc.prems(1) by simp
  have inv: "distinct (Map_keys c1) \<and> int (Map_size c1) \<le> N"
    using N _ _ run1 by (rule run_maxsize_invariant) (simp_all add: Map_keys_def Map_size_def N)
  obtain v where fa: "f a = Inr v"
    using snoc.prems(1) by auto
  have "Map_keys c2 =
           (let s = Map_keys c1; k = JSON_stringify a in
            if k \<in> set s then removeAll k s @ [k]
            else if int (length s) < N then s @ [k]
            else tl (s @ [k]))"
    using inv fa step by (intro maxsize_step_keys) auto
  moreover have "\<And>s::string list. (int (length s) < N) = (length s < nat N)"
    using N by auto
  ultimately show ?case
    by (simp add: c keys1 most_recent_snoc Let_def)
qed

text \<open>
  For a wrapped function that does not call the memoized function: with
  \<^verbatim>\<open>maxSize = N \<ge> 0\<close>, after every sequence of calls on an empty cache the Map holds at
  most \<open>N\<close> entries; and when no call throws, its keys are the \<open>N\<close> most recently used
  keys, least recently used first.
\<close>

lemma run_maxsize_bound_and_order:
  assumes "0 \<le> N" and "run_maxsize f N calls [] = (rs, c, evs)"
  shows "int (Map_size c) \<le> N \<and>
         ((\<forall>a \<in> set calls. \<exists>v. f a = Inr v) \<longrightarrow>
            Map_keys c = most_recent (nat N) (map JSON_stringify calls))"
proof
  have "distinct (Map_keys c) \<and> int (Map_size c) \<le> N"
    using assms(1) _ _ assms(2)
    by (rule run_maxsize_invariant) (simp_all add: Map_keys_def Map_size_def assms(1))
  then show "int (Map_size c) \<le> N" ..
  show "(\<forall>a \<in> set calls. \<exists>v. f a = Inr v) \<longrightarrow>
            Map_keys c = most_recent (nat N) (map JSON_stringify calls)"
    using assms run_maxsize_lru by blast
qed

subsection \<open>A wrapped function that calls the memoized function\<close>

lemma memoizeWithMaxSize_not_reentrant:
  "memoizeWithMaxSize_reentrant (Suc depth) (not_reentrant f) N args c =
     Some (memoizeWithMaxSize f N args c)"
  by (simp add: memoizeWithMaxSize_def not_reentrant_def Let_def split: sum.splits)

text \<open>
  C8 fails when the wrapped function calls the memoized function: the hit branch deletes the
  entry, calls \<^verbatim>\<open>fn\<close>, whose nested calls fill the Map, and stores the result with no
  test of the size. With \<^verbatim>\<open>maxSize = 2\<close> and the memoized Fibonacci function, the first
  call \<^verbatim>\<open>fib(2)\<close> leaves the keys \<^verbatim>\<open>[0]\<close> and \<^verbatim>\<open>[2]\<close>; the second call \<^verbatim>\<open>fib(2)\<close>
  is a hit and returns with the three entries \<^verbatim>\<open>[1]\<close>, \<^verbatim>\<open>[0]\<close>, \<^verbatim>\<open>[2]\<close> in the Map.
\<close>

theorem C8_reentrant_hit_exceeds_capacity:
  "memoizeWithMaxSize_reentrant 3 fib_body 2 [JNum 2] [] =
     Some (Inr 1, [(''[0]'', 0), (''[2]'', 1)],
           [LogComputing [JNum 2], Invoke [JNum 2],
            LogComputing [JNum 1], Invoke [JNum 1],
            LogComputing [JNum 0], Invoke [JNum 0], LogEvicted (Some ''[1]'')]) \<and>
   memoizeWithMaxSize_reentrant 3 fib_body 2 [JNum 2] [(''[0]'', 0), (''[2]'', 1)] =
     Some (Inr 1, [(''[1]'', 1), (''[0]'', 0), (''[2]'', 1)],
           [LogCacheHit ''[2]'', Invoke [JNum 2],
            LogComputing [JNum 1], Invoke [JNum 1],
            LogCacheHit ''[0]'', Invoke [JNum 0]]) \<and>
   \<not> int (Map_size [(''[1]'', 1 :: int), (''[0]'', 0), (''[2]'', 1)]) \<le> 2"
  by code_simp

subsection \<open>Capacity zero\<close>

lemma maxsize_zero_step:
  "memoizeWithMaxSize f 0 a [] =
     (f a, [],
      (case f a of
         Inl x \<Rightarrow> [LogComputing a, Invoke a]
       | Inr v \<Rightarrow> [LogComputing a, Invoke a, LogEvicted (Some (JSON_stringify a))]))"
  by (simp add: memoizeWithMaxSize_def Let_def Map_has_def Map_size_def Map_first_key_def
      Map_delete_def split: sum.splits)

text \<open>
  C9: with \<^verbatim>\<open>maxSize = 0\<close> every call on the (empty) cache is a miss that calls the wrapped
  computation; when it returns, the entry just stored is evicted before the call returns, and
  the cache is empty after every call.
\<close>

theorem C9_zero_capacity_always_recomputes:
  "run_maxsize f 0 calls [] =
     (map f calls, [],
      concat (map (\<lambda>a. case f a of
                 Inl x \<Rightarrow> [LogComputing a, Invoke a]
               | Inr v \<Rightarrow> [LogComputing a, Invoke a, LogEvicted (Some (JSON_stringify a))])
             calls))"
  by (induction calls) (simp_all add: maxsize_zero_step)

section \<open>The time-to-live cache \<^verbatim>\<open>memoizeWithTTL\<close>\<close>

lemma Map_has_set: "Map_has k (Map_set k v m)"
  by (induction m) (auto simp: Map_has_def)

lemma Map_keys_set_present_get:
  "Map_get k m = Some e \<Longrightarrow> Map_keys (Map_set k v m) = Map_keys m"
  using Map_keys_set_present [of k m v] by (simp add: Map_has_iff_get)


lemma memoizeWithTTL_hit:
  assumes "Map_get (JSON_stringify args) c = Some e" and "now - timestamp e < T"
  shows "memoizeWithTTL f T args now now' c =
           (Inr (cached_value e), c, [LogCacheHit (JSON_stringify args)])"
  using assms by (simp add: memoizeWithTTL_def Let_def)

lemma memoizeWithTTL_expired:
  assumes "Map_get (JSON_stringify args) c = Some e" and "T \<le> now - timestamp e"
  shows "memoizeWithTTL f T args now now' c =
           (case f args of
              Inl x \<Rightarrow> (Inl x, c, [LogComputing args, Invoke args])
            | Inr r \<Rightarrow>
                (Inr r, Map_set (JSON_stringify args) \<lparr>cached_value = r, timestamp = now'\<rparr> c,
                 [LogComputing args, Invoke args]))"
  using assms by (simp add: memoizeWithTTL_def Let_def)

lemma memoizeWithTTL_absent:
  assumes "Map_get (JSON_stringify args) c = None"
  shows "memoizeWithTTL f T args now now' c =
           (case f args of
              Inl x \<Rightarrow> (Inl x, c, [LogComputing args, Invoke args])
            | Inr r \<Rightarrow>
                (Inr r, Map_set (JSON_stringify args) \<lparr>cached_value = r, timestamp = now'\<rparr> c,
                 [LogComputing args, Invoke args]))"
  using assms by (simp add: memoizeWithTTL_def Let_def)

text \<open>
  C3: for an entry stored with timestamp \<open>t0\<close> and \<^verbatim>\<open>ttlMs = T\<close>, a lookup at time
  \<open>now\<close> is a hit that returns the cached value when \<open>now - t0 < T\<close>, and a miss when
  \<open>now - t0 \<ge> T\<close>: then the call returns what the wrapped computation returns now, not the
  stale value, and stores it with the time of storing as its timestamp. A hit leaves the entry
  and its timestamp as they are, so the age is counted from the creation of the entry.
\<close>

theorem C3_ttl_hit_and_expiry:
  assumes "Map_get (JSON_stringify args) c = Some \<lparr>cached_value = v0, timestamp = t0\<rparr>"
  shows "(now - t0 < T \<longrightarrow>
            memoizeWithTTL f T args now now' c =
              (Inr v0, c, [LogCacheHit (JSON_stringify args)])) \<and>
         (T \<le> now - t0 \<longrightarrow>
            memoizeWithTTL f T args now now' c =
              (case f args of
                 Inl x \<Rightarrow> (Inl x, c, [LogComputing args, Invoke args])
               | Inr r \<Rightarrow>
                   (Inr r,
                    Map_set (JSON_stringify args) \<lparr>cached_value = r, timestamp = now'\<rparr> c,
                    [LogComputing args, Invoke args]))) \<and>
         (\<forall>r. T \<le> now - t0 \<and> f args = Inr r \<longrightarrow>
            Map_get (JSON_stringify args) (fst (snd (memoizeWithTTL f T args now now' c))) =
              Some \<lparr>cached_value = r, timestamp = now'\<rparr>) \<and>
         (now - t0 < T \<longrightarrow>
            Map_get (JSON_stringify args) (fst (snd (memoizeWithTTL f T args now now' c))) =
              Some \<lparr>cached_value = v0, timestamp = t0\<rparr>)"
proof (intro conjI impI allI)
  assume "now - t0 < T"
  then show "Map_get (JSON_stringify args) (fst (snd (memoizeWithTTL f T args now now' c))) =
      Some \<lparr>cached_value = v0, timestamp = t0\<rparr>"
    using memoizeWithTTL_hit [OF assms, of now T f now'] assms by simp
next
  assume "now - t0 < T"
  then show "memoizeWithTTL f T args now now' c =
      (Inr v0, c, [LogCacheHit (JSON_stringify args)])"
    using memoizeWithTTL_hit [OF assms, of now T f now'] by simp
next
  assume "T \<le> now - t0"
  then show "memoizeWithTTL f T args now now' c =
      (case f args of
         Inl x \<Rightarrow> (Inl x, c, [LogComputing args, Invoke args])
       | Inr r \<Rightarrow>
           (Inr r,
            Map_set (JSON_stringify args) \<lparr>cached_value = r, timestamp = now'\<rparr> c,
            [LogComputing args, Invoke args]))"
    using memoizeWithTTL_expired [OF assms, of T now f now'] by simp
next
  fix r
  assume "T \<le> now - t0 \<and> f args = Inr r"
  then show "Map_get (JSON_stringify args) (fst (snd (memoizeWithTTL f T args now now' c))) =
      Some \<lparr>cached_value = r, timestamp = now'\<rparr>"
    using memoizeWithTTL_expired [OF assms, of T now f now'] by (simp add: Map_get_set_same)
qed

text \<open>
  With \<^verbatim>\<open>ttlMs = 1000\<close> and an entry of time 0: a hit at time 500 returns the cached 7; at
  time 1000 the entry has expired and the call returns the recomputed 8.
\<close>

theorem C3_witness:
  "memoizeWithTTL cube 1000 [JNum 2] 500 500 [(''[2]'', \<lparr>cached_value = 7, timestamp = 0\<rparr>)] =
     (Inr 7, [(''[2]'', \<lparr>cached_value = 7, timestamp = 0\<rparr>)], [LogCacheHit ''[2]'']) \<and>
   memoizeWithTTL cube 1000 [JNum 2] 1000 1001 [(''[2]'', \<lparr>cached_value = 7, timestamp = 0\<rparr>)] =
     (Inr 8, [(''[2]'', \<lparr>cached_value = 8, timestamp = 1001\<rparr>)],
      [LogComputing [JNum 2], Invoke [JNum 2]])"
proof -
  let ?c = "[(''[2]'', \<lparr>cached_value = 7 :: int, timestamp = 0\<rparr>)]"
  have k: "JSON_stringify [JNum 2] = ''[2]''" by code_simp
  have e: "Map_get (JSON_stringify [JNum 2]) ?c = Some \<lparr>cached_value = 7, timestamp = 0\<rparr>"
    by (simp add: k Map_get_def)
  have young: "(500::int) - 0 < 1000" and old: "(1000::int) \<le> 1000 - 0" by simp_all
  from C3_ttl_hit_and_expiry [OF e, of 500 1000 cube 500] young
  have "memoizeWithTTL cube 1000 [JNum 2] 500 500 ?c =
      (Inr 7, ?c, [LogCacheHit (JSON_stringify [JNum 2])])"
    by blast
  moreover from C3_ttl_hit_and_expiry [OF e, of 1000 1000 cube 1001] old
  have "memoizeWithTTL cube 1000 [JNum 2] 1000 1001 ?c =
      (case cube [JNum 2] of
         Inl x \<Rightarrow> (Inl x, ?c, [LogComputing [JNum 2], Invoke [JNum 2]])
       | Inr r \<Rightarrow>
           (Inr r,
            Map_set (JSON_stringify [JNum 2]) \<lparr>cached_value = r, timestamp = 1001\<rparr> ?c,
            [LogComputing [JNum 2], Invoke [JNum 2]]))"
    by blast
  ultimately show ?thesis
    by (simp add: k cube_def)
qed

text \<open>
  C7, as amended. A lookup that finds an entry of age \<open>now - timestamp \<ge> ttlMs\<close> treats it
  as absent and calls the wrapped computation. The expired entry is not removed and nothing
  is counted or logged as an eviction: the Map keeps its keys in their order; the entry is
  overwritten in place when the computation returns and is left as it is when the
  computation throws.
\<close>

theorem C7_expired_entry_is_overwritten_not_removed:
  assumes "Map_get (JSON_stringify args) c = Some e" and "T \<le> now - timestamp e"
    and "memoizeWithTTL f T args now now' c = (r, c', evs)"
  shows "evs = [LogComputing args, Invoke args] \<and> r = f args \<and>
         Map_keys c' = Map_keys c \<and>
         (case f args of
            Inl x \<Rightarrow> c' = c
          | Inr v \<Rightarrow>
              c' = Map_set (JSON_stringify args) \<lparr>cached_value = v, timestamp = now'\<rparr> c)"
  using memoizeWithTTL_expired [OF assms(1,2), of f now'] assms(3)
    Map_keys_set_present_get [OF assms(1)]
  by (auto split: sum.splits)

theorem C7_witness:
  "memoizeWithTTL null_sensitive 1000 [JUndefined] 1200 1201
     [(''[1]'', \<lparr>cached_value = 1, timestamp = 900\<rparr>),
      (''[null]'', \<lparr>cached_value = 5, timestamp = 0\<rparr>)] =
     (Inr 1,
      [(''[1]'', \<lparr>cached_value = 1, timestamp = 900\<rparr>),
       (''[null]'', \<lparr>cached_value = 1, timestamp = 1201\<rparr>)],
      [LogComputing [JUndefined], Invoke [JUndefined]])"
proof -
  let ?c = "[(''[1]'', \<lparr>cached_value = 1 :: nat, timestamp = 900\<rparr>),
      (''[null]'', \<lparr>cached_value = 5, timestamp = 0\<rparr>)]"
  let ?e = "\<lparr>cached_value = 5 :: nat, timestamp = 0\<rparr>"
  obtain r c' evs where run: "memoizeWithTTL null_sensitive 1000 [JUndefined] 1200 1201 ?c = (r, c', evs)"
    by (cases "memoizeWithTTL null_sensitive 1000 [JUndefined] 1200 1201 ?c") auto
  have e: "Map_get (JSON_stringify [JUndefined]) ?c = Some ?e"
    by (simp add: key_undefined Map_get_def)
  have old: "(1000::int) \<le> 1200 - timestamp ?e" by simp
  from C7_expired_entry_is_overwritten_not_removed [OF e old run]
  have "evs = [LogComputing [JUndefined], Invoke [JUndefined]] \<and> r = Inr 1 \<and>
      c' = [(''[1]'', \<lparr>cached_value = 1, timestamp = 900\<rparr>),
            (''[null]'', \<lparr>cached_value = 1, timestamp = 1201\<rparr>)]"
    by (simp add: null_sensitive_def key_undefined)
  then show ?thesis
    unfolding run by simp
qed

text \<open>
  C7 as stated fails: after a lookup that found the expired entry and whose recomputation
  threw, the expired entry is still in the Map.
\<close>

theorem C7_counterexample:
  "memoizeWithTTL null_sensitive 1000 [JNull] 1100 1100
     [(''[null]'', \<lparr>cached_value = 1, timestamp = 0\<rparr>)] =
     (Inl ''null'', [(''[null]'', \<lparr>cached_value = 1, timestamp = 0\<rparr>)],
      [LogComputing [JNull], Invoke [JNull]])"
  by (simp add: memoizeWithTTL_def key_null Map_get_def null_sensitive_def)

section \<open>The class \<^verbatim>\<open>MemoizedFunction\<close>\<close>

lemma call_hits_mono:
  "call this args = (r, this', evs) \<Longrightarrow>
     hits this' = hits this + hit_count evs \<and> misses this' = misses this + computing_count evs"
  by (auto simp: call_def Let_def hit_count_def computing_count_def split: option.splits sum.splits)

lemma perform_counters:
  "perform this m = (this', evs) \<Longrightarrow>
     hits this' = hits this + hit_count evs \<and> misses this' = misses this + computing_count evs"
  by (cases m)
    (auto simp: perform_def clear_def hit_count_def computing_count_def
      dest: call_hits_mono split: prod.splits)

lemma hit_count_append: "hit_count (xs @ ys) = hit_count xs + hit_count ys"
  by (simp add: hit_count_def)

lemma computing_count_append:
  "computing_count (xs @ ys) = computing_count xs + computing_count ys"
  by (simp add: computing_count_def)

lemma run_operations_counters:
  "run_operations this ms = (this', evs) \<Longrightarrow>
     hits this' = hits this + hit_count evs \<and> misses this' = misses this + computing_count evs"
proof (induction ms arbitrary: this this' evs)
  case Nil
  then show ?case by (simp add: hit_count_def computing_count_def)
next
  case (Cons m ms)
  obtain this1 e1 where step: "perform this m = (this1, e1)"
    by (cases "perform this m") auto
  obtain this2 e2 where rest: "run_operations this1 ms = (this2, e2)"
    by (cases "run_operations this1 ms") auto
  have eq: "this' = this2" "evs = e1 @ e2"
    using Cons.prems by (simp_all add: step rest)
  from perform_counters [OF step] Cons.IH [OF rest] show ?case
    by (simp add: eq hit_count_append computing_count_append)
qed

text \<open>
  C5, as amended. \<^verbatim>\<open>clear()\<close> empties the cache and leaves \<^verbatim>\<open>hits\<close> and \<^verbatim>\<open>misses\<close> as
  they are (the class has no eviction counter); and no sequence of calls of \<^verbatim>\<open>call\<close>,
  \<^verbatim>\<open>stats\<close> and \<^verbatim>\<open>clear\<close> decreases \<^verbatim>\<open>hits\<close> or \<^verbatim>\<open>misses\<close>.
\<close>

theorem C5_clear_keeps_counters:
  "cache (fst (clear this)) = [] \<and>
   hits (fst (clear this)) = hits this \<and>
   misses (fst (clear this)) = misses this \<and>
   hits this \<le> hits (fst (run_operations this ms)) \<and>
   misses this \<le> misses (fst (run_operations this ms))"
proof -
  obtain this' evs where run: "run_operations this ms = (this', evs)"
    by (cases "run_operations this ms") auto
  from run_operations_counters [OF run] show ?thesis
    by (simp add: run clear_def)
qed

text \<open>
  C5 as stated fails: after a miss, a hit and \<^verbatim>\<open>clear()\<close> the cache is empty and both
  counters are still 1.
\<close>

theorem C5_counterexample:
  "cache (fst (run_operations (new_MemoizedFunction cube) [Call [JNum 2], Call [JNum 2], Clear])) = [] \<and>
   hits (fst (run_operations (new_MemoizedFunction cube) [Call [JNum 2], Call [JNum 2], Clear])) = 1 \<and>
   misses (fst (run_operations (new_MemoizedFunction cube) [Call [JNum 2], Call [JNum 2], Clear])) = 1"
  by code_simp

text \<open>
  C6, as amended. After any sequence of \<^verbatim>\<open>call\<close>, \<^verbatim>\<open>stats\<close> and \<^verbatim>\<open>clear\<close> on a new
  instance with \<open>h\<close> hits and \<open>m\<close> misses (the numbers of \<^verbatim>\<open>[cache hit]\<close> and
  \<^verbatim>\<open>[computing]\<close> lines), the snapshot has \<^verbatim>\<open>hits = h\<close> and \<^verbatim>\<open>misses = m\<close>, and
  \<^verbatim>\<open>hitRate\<close> is a string: for \<open>h + m > 0\<close> the Number \<^verbatim>\<open>h / (h + m) * 100\<close> printed by
  \<^verbatim>\<open>toFixed(2)\<close> and followed by a percent sign, and \<^verbatim>\<open>0%\<close> for \<open>h + m = 0\<close>.
\<close>

theorem C6_stats_snapshot:
  "(case run_operations (new_MemoizedFunction f) ms of
      (this, evs) \<Rightarrow>
        stats this =
          \<lparr>stats_hits = hit_count evs,
           stats_misses = computing_count evs,
           stats_hitRate = JSString (
             (if hit_count evs + computing_count evs > 0
              then toFixed 2 (to_double (to_double
                     (of_nat (hit_count evs) / of_nat (hit_count evs + computing_count evs)) * 100))
              else ''0'') @ ''%''),
           stats_size = Map_size (cache this)\<rparr>)"
proof -
  obtain this evs where run: "run_operations (new_MemoizedFunction f) ms = (this, evs)"
    by (cases "run_operations (new_MemoizedFunction f) ms") auto
  from run_operations_counters [OF run]
  have "hits this = hit_count evs" and "misses this = computing_count evs"
    by (simp_all add: new_MemoizedFunction_def)
  then show ?thesis
    by (simp add: run stats_def Let_def)
qed

text \<open>
  C6 as stated fails: after one hit and two misses \<^verbatim>\<open>hitRate\<close> is the string
  \<^verbatim>\<open>33.33%\<close>, not the number \<open>1/3\<close>.
\<close>

theorem C6_counterexample:
  "stats (fst (run_operations (new_MemoizedFunction cube)
                 [Call [JNum 2], Call [JNum 2], Call [JNum 3]])) =
     \<lparr>stats_hits = 1, stats_misses = 2, stats_hitRate = JSString ''33.33%'', stats_size = 2\<rparr> \<and>
   stats_hitRate (stats (fst (run_operations (new_MemoizedFunction cube)
                 [Call [JNum 2], Call [JNum 2], Call [JNum 3]]))) \<noteq> JSNumber (spec_hitRate 1 2)"
proof -
  have "stats (fst (run_operations (new_MemoizedFunction cube)
                 [Call [JNum 2], Call [JNum 2], Call [JNum 3]])) =
     \<lparr>stats_hits = 1, stats_misses = 2, stats_hitRate = JSString ''33.33%'', stats_size = 2\<rparr>"
    by code_simp
  then show ?thesis by simp
qed

end
